theory Spec2Isabelle
  imports Main "HOL-Library.Multiset"
begin

section \<open>Paths and the filesystem\<close>

text \<open>
  A \<open>pathlib\<close> path is its anchor (drive and root: \<open>''/''\<close> on POSIX, the empty string
  for a relative path) followed by the names of its segments.  Two paths are equal
  when anchor and names are equal, as for \<open>PurePosixPath\<close>.
\<close>

record path =
  anchor :: string
  names :: "string list"

text \<open>
  \<open>Path.parent\<close>: the path without its last name; a path with no names is its own
  parent.
\<close>

definition parent :: "path \<Rightarrow> path" where
  "parent p = (if names p = [] then p else p\<lparr>names := butlast (names p)\<rparr>)"

text \<open>
  \<open>Path.parents\<close>: a sequence of \<open>length (names p)\<close> elements, the element at index
  \<open>idx\<close> keeps all but the last \<open>idx + 1\<close> names, so the direct parent comes first and
  the bare anchor last.
\<close>

definition parents :: "path \<Rightarrow> path list" where
  "parents p =
     map (\<lambda>idx. p\<lparr>names := take (length (names p) - idx - 1) (names p)\<rparr>)
       [0..<length (names p)]"

definition root_of :: "path \<Rightarrow> path" where
  "root_of p = p\<lparr>names := []\<rparr>"

text \<open>
  The filesystem is the environment of the two functions.  \<open>stat\<close> is the system call
  behind \<open>Path.is_dir()\<close>: it finds a node, or fails with one of the errors that mean
  that nothing is there (\<open>ENOENT\<close>, \<open>ENOTDIR\<close>, \<open>EBADF\<close>, \<open>ELOOP\<close>), or fails with another
  error (permission denied, name too long).  \<open>resolve\<close> is \<open>Path.resolve()\<close>: the
  canonical absolute form of a path, or \<open>None\<close> when resolution raises.
\<close>

datatype node = Directory | RegularFile

datatype stat_result = Found node | NotFound | StatError

record filesystem =
  stat :: "path \<Rightarrow> stat_result"
  resolve :: "path \<Rightarrow> path option"

datatype error =
    ResolveError path
  | OSError path
  | UnpackError
  | NoCommonRoot "path list"

text \<open>
  \<open>Path.is_dir()\<close>: whether \<open>stat\<close> finds a directory.  The errors that mean that
  nothing is there are caught and give \<open>False\<close>; every other error of \<open>stat\<close> is raised
  again.
\<close>

definition is_dir :: "filesystem \<Rightarrow> path \<Rightarrow> error + bool" where
  "is_dir fs p =
     (case stat fs p of
        Found k \<Rightarrow> Inr (k = Directory)
      | NotFound \<Rightarrow> Inr False
      | StatError \<Rightarrow> Inl (OSError p))"

section \<open>The functions of \<open>darker.utils\<close>\<close>

text \<open>
  \<open>get_path_ancestry\<close>: the reversed parents, followed by the path itself when it is a
  directory.  The call of \<open>is_dir\<close> is not guarded, so what it raises leaves the
  function.
\<close>

definition get_path_ancestry :: "filesystem \<Rightarrow> path \<Rightarrow> error + path list" where
  "get_path_ancestry fs p =
     (let reverse_parents = rev (parents p)
      in case is_dir fs p of
           Inl e \<Rightarrow> Inl e
         | Inr d \<Rightarrow> Inr (if d then reverse_parents @ [p] else reverse_parents))"

text \<open>The list comprehension \<open>[path.resolve() for path in paths]\<close>.\<close>

fun resolve_all :: "filesystem \<Rightarrow> path list \<Rightarrow> error + path list" where
  "resolve_all fs [] = Inr []"
| "resolve_all fs (p # ps) =
     (case resolve fs p of
        None \<Rightarrow> Inl (ResolveError p)
      | Some r \<Rightarrow>
          (case resolve_all fs ps of
             Inl e \<Rightarrow> Inl e
           | Inr rs \<Rightarrow> Inr (r # rs)))"

text \<open>
  The generator \<open>get_path_ancestry(path) for path in resolved_paths\<close>, unpacked into
  the arguments of \<open>zip\<close>: the chains are computed in order and the first call that
  raises ends the unpacking.
\<close>

fun ancestry_all :: "filesystem \<Rightarrow> path list \<Rightarrow> error + path list list" where
  "ancestry_all fs [] = Inr []"
| "ancestry_all fs (p # ps) =
     (case get_path_ancestry fs p of
        Inl e \<Rightarrow> Inl e
      | Inr c \<Rightarrow>
          (case ancestry_all fs ps of
             Inl e \<Rightarrow> Inl e
           | Inr cs \<Rightarrow> Inr (c # cs)))"

text \<open>
  \<open>zip\<close> of the unpacked iterables: nothing for no iterable at all; otherwise one
  tuple of the next elements of every iterable, until one of them is exhausted.
\<close>

function zip_star :: "'a list list \<Rightarrow> 'a list list" where
  "zip_star xss =
     (if xss = [] \<or> list_ex (\<lambda>xs. xs = []) xss then []
      else map hd xss # zip_star (map tl xss))"
  by pat_completeness auto
termination
proof (relation "measure (\<lambda>xss. length (hd xss))")
  show "wf (measure (\<lambda>xss. length (hd xss)))"
    by simp
next
  fix xss :: "'a list list"
  assume "\<not> (xss = [] \<or> list_ex (\<lambda>xs. xs = []) xss)"
  then have "xss \<noteq> []" and "hd xss \<noteq> []"
    by (cases xss; auto simp: list_ex_iff)+
  then show "(map tl xss, xss) \<in> measure (\<lambda>xss. length (hd xss))"
    by (cases xss) auto
qed

declare zip_star.simps [simp del]

text \<open>
  The loop of \<open>get_common_root\<close> over the tuples: each tuple is unpacked as
  \<open>first_path, *other_paths\<close> (which raises on an empty tuple); the first tuple whose
  other elements all equal the first one ends the loop, and the end of the tuples
  raises the \<open>ValueError\<close> that reports the resolved paths.
\<close>

fun scan_parents :: "path list \<Rightarrow> path list list \<Rightarrow> error + path" where
  "scan_parents resolved_paths [] = Inl (NoCommonRoot resolved_paths)"
| "scan_parents resolved_paths ([] # rows) = Inl UnpackError"
| "scan_parents resolved_paths ((first_path # other_paths) # rows) =
     (if list_all (\<lambda>p. p = first_path) other_paths then Inr first_path
      else scan_parents resolved_paths rows)"

definition get_common_root :: "filesystem \<Rightarrow> path list \<Rightarrow> error + path" where
  "get_common_root fs paths =
     (case resolve_all fs paths of
        Inl e \<Rightarrow> Inl e
      | Inr resolved_paths \<Rightarrow>
          (case ancestry_all fs resolved_paths of
             Inl e \<Rightarrow> Inl e
           | Inr ancestries \<Rightarrow>
               scan_parents resolved_paths (rev (zip_star ancestries))))"

section \<open>Notions of the specification\<close>

text \<open>
  The chains agree at position \<open>i\<close> on the element \<open>x\<close> when every chain has a
  position \<open>i\<close> and holds \<open>x\<close> there (positions count from the root end, position 0
  being the first element of a chain).  The deepest agreed element is the one at the
  last such position.
\<close>

definition agree_at :: "path list list \<Rightarrow> nat \<Rightarrow> path \<Rightarrow> bool" where
  "agree_at cs i x = list_all (\<lambda>c. i < length c \<and> c ! i = x) cs"

definition deepest_agreed :: "path list list \<Rightarrow> path \<Rightarrow> bool" where
  "deepest_agreed cs x \<longleftrightarrow>
     (\<exists>i. agree_at cs i x \<and> (\<forall>j>i. \<not> (\<exists>y. agree_at cs j y)))"

text \<open>
  The resolved paths lie in a single-root filesystem when they all have the same root
  and that root is a directory.
\<close>

definition single_root :: "filesystem \<Rightarrow> path list \<Rightarrow> bool" where
  "single_root fs rs =
     list_all (\<lambda>r. root_of r = root_of (hd rs) \<and> is_dir fs (root_of r) = Inr True) rs"

text \<open>
  A path is canonical when \<open>resolve\<close> returns it unchanged.  \<open>resolve\<close> behaves
  canonically when its results are canonical and the parent of a canonical path is
  canonical, as holds for an absolute path free of symbolic links.
\<close>

definition canonical :: "filesystem \<Rightarrow> path \<Rightarrow> bool" where
  "canonical fs p \<longleftrightarrow> resolve fs p = Some p"

definition resolves_canonically :: "filesystem \<Rightarrow> bool" where
  "resolves_canonically fs \<longleftrightarrow>
     (\<forall>p r. resolve fs p = Some r \<longrightarrow> canonical fs r) \<and>
     (\<forall>p. canonical fs p \<longrightarrow> canonical fs (parent p))"

section \<open>Sample filesystems\<close>

text \<open>
  A POSIX tree with the directories \<open>/\<close>, \<open>/a\<close>, \<open>/a/b\<close>, \<open>/a/b/c\<close>, \<open>/a/b/d\<close> and
  the regular files \<open>/a/b/c/file.txt\<close> and \<open>/a/b/d/file2.txt\<close>; nothing else exists.
  Every path is already canonical, so \<open>resolve\<close> returns it unchanged.
\<close>

definition posix_path :: "string list \<Rightarrow> path" where
  "posix_path ns = \<lparr>anchor = ''/'', names = ns\<rparr>"

definition file_txt :: path where
  "file_txt = posix_path [''a'', ''b'', ''c'', ''file.txt'']"

definition file2_txt :: path where
  "file2_txt = posix_path [''a'', ''b'', ''d'', ''file2.txt'']"

definition tree_fs :: filesystem where
  "tree_fs =
     \<lparr>stat = (\<lambda>p.
         if p \<in> set (map posix_path
              [[], [''a''], [''a'', ''b''], [''a'', ''b'', ''c''], [''a'', ''b'', ''d'']])
         then Found Directory
         else if p = file_txt \<or> p = file2_txt then Found RegularFile
         else NotFound),
      resolve = Some\<rparr>"

text \<open>
  A filesystem in which only the bare roots exist (every path without names is a
  directory, nothing else is there), with paths on two drives.
\<close>

definition drive_path :: "string \<Rightarrow> string list \<Rightarrow> path" where
  "drive_path d ns = \<lparr>anchor = d, names = ns\<rparr>"

definition roots_only_fs :: filesystem where
  "roots_only_fs =
     \<lparr>stat = (\<lambda>p. if names p = [] then Found Directory else NotFound), resolve = Some\<rparr>"

text \<open>
  A filesystem with a directory \<open>/private\<close> that the caller may not search: \<open>stat\<close> of
  \<open>/private/x\<close> fails with permission denied.  There is one root, and every path is
  canonical.
\<close>

definition guarded_fs :: filesystem where
  "guarded_fs =
     \<lparr>stat = (\<lambda>p.
         if p = posix_path [] \<or> p = posix_path [''private''] then Found Directory
         else if p = posix_path [''private'', ''x''] then StatError
         else NotFound),
      resolve = Some\<rparr>"

section \<open>\<open>zip\<close>, the loop and resolution\<close>

lemma rev_parents: "rev (parents p) = map (\<lambda>k. p\<lparr>names := take k (names p)\<rparr>) [0..<length (names p)]"
  by (rule nth_equalityI) (simp_all add: parents_def rev_nth)

lemma zip_star_length_iff:
  "i < length (zip_star xss) \<longleftrightarrow> xss \<noteq> [] \<and> (\<forall>xs\<in>set xss. i < length xs)"
proof (induction xss arbitrary: i rule: zip_star.induct)
  case (1 xss)
  show ?case
  proof (cases "xss = [] \<or> list_ex (\<lambda>xs. xs = []) xss")
    case True
    then have "zip_star xss = []" by (subst zip_star.simps) simp
    moreover have "\<not> (xss \<noteq> [] \<and> (\<forall>xs\<in>set xss. i < length xs))"
      using True by (fastforce simp: list_ex_iff)
    ultimately show ?thesis by simp
  next
    case False
    then have ne: "xss \<noteq> []" "\<forall>xs\<in>set xss. xs \<noteq> []" by (auto simp: list_ex_iff)
    show ?thesis
    proof (cases i)
      case 0
      with False ne show ?thesis by (subst zip_star.simps) auto
    next
      case (Suc k)
      have "i < length (zip_star xss) \<longleftrightarrow> k < length (zip_star (map tl xss))"
        using False Suc by (subst zip_star.simps) simp
      also have "\<dots> \<longleftrightarrow> map tl xss \<noteq> [] \<and> (\<forall>xs\<in>set (map tl xss). k < length xs)"
        using 1 [OF False] .
      also have "\<dots> \<longleftrightarrow> xss \<noteq> [] \<and> (\<forall>xs\<in>set xss. i < length xs)"
        using ne Suc by auto
      finally show ?thesis .
    qed
  qed
qed

lemma zip_star_nth:
  "i < length (zip_star xss) \<Longrightarrow> zip_star xss ! i = map (\<lambda>xs. xs ! i) xss"
proof (induction xss arbitrary: i rule: zip_star.induct)
  case (1 xss)
  show ?case
  proof (cases "xss = [] \<or> list_ex (\<lambda>xs. xs = []) xss")
    case True
    then have "zip_star xss = []" by (subst zip_star.simps) simp
    with 1(2) show ?thesis by simp
  next
    case False
    then have ne: "xss \<noteq> []" "\<forall>xs\<in>set xss. xs \<noteq> []" by (auto simp: list_ex_iff)
    have unf: "zip_star xss = map hd xss # zip_star (map tl xss)"
      using False by (subst zip_star.simps) simp
    show ?thesis
    proof (cases i)
      case 0
      with unf ne show ?thesis by (simp add: hd_conv_nth)
    next
      case (Suc k)
      with 1(2) unf have "k < length (zip_star (map tl xss))" by simp
      have tl_nth: "tl xs ! k = xs ! Suc k" if "xs \<in> set xss" for xs
      proof -
        from that ne have "xs \<noteq> []" by blast
        then obtain a t where "xs = a # t" by (cases xs) auto
        then show ?thesis by simp
      qed
      from 1(1) [OF False \<open>k < length (zip_star (map tl xss))\<close>] Suc unf tl_nth
      show ?thesis by simp
    qed
  qed
qed

lemma zip_star_no_empty_row: "[] \<notin> set (zip_star xss)"
proof
  assume "[] \<in> set (zip_star xss)"
  then obtain i where i: "i < length (zip_star xss)" and e: "zip_star xss ! i = []"
    by (auto simp: in_set_conv_nth)
  from i have "xss \<noteq> []" by (simp add: zip_star_length_iff)
  with e zip_star_nth [OF i] show False by simp
qed

lemma scan_parents_snoc:
  "[] \<notin> set rows \<Longrightarrow>
   scan_parents rs (rev (rows @ [f # others])) =
     (if \<forall>y\<in>set others. y = f then Inr f else scan_parents rs (rev rows))"
  by (simp add: list_all_iff)

lemma scan_parents_rev_Inr:
  "[] \<notin> set rows \<Longrightarrow>
   scan_parents rs (rev rows) = Inr x \<longleftrightarrow>
     (\<exists>i<length rows. (\<forall>y\<in>set (rows ! i). y = x) \<and>
        (\<forall>j. i < j \<and> j < length rows \<longrightarrow> \<not> (\<exists>y. \<forall>z\<in>set (rows ! j). z = y)))"
  (is "_ \<Longrightarrow> _ \<longleftrightarrow> ?R rows")
proof (induction rows rule: rev_induct)
  case Nil
  then show ?case by simp
next
  case (snoc row rows)
  then have ne: "[] \<notin> set rows" and "row \<noteq> []" by auto
  then obtain f others where row: "row = f # others" by (cases row) auto
  let ?n = "length rows"
  have step: "scan_parents rs (rev (rows @ [row])) =
      (if \<forall>y\<in>set others. y = f then Inr f else scan_parents rs (rev rows))"
    unfolding row by (rule scan_parents_snoc [OF ne])
  show ?case
  proof (cases "\<forall>y\<in>set others. y = f")
    case True
    have L: "scan_parents rs (rev (rows @ [row])) = Inr x \<longleftrightarrow> x = f"
      unfolding step using True by auto
    have "?R (rows @ [row]) \<longleftrightarrow> x = f"
    proof
      assume "?R (rows @ [row])"
      then obtain i where i: "i < Suc ?n" "\<forall>y\<in>set ((rows @ [row]) ! i). y = x"
        and top: "\<forall>j. i < j \<and> j < Suc ?n \<longrightarrow> \<not> (\<exists>y. \<forall>z\<in>set ((rows @ [row]) ! j). z = y)"
        by auto
      have "i = ?n"
      proof (rule ccontr)
        assume "i \<noteq> ?n"
        with i have "i < ?n" by simp
        with top [rule_format, of ?n]
        have "\<not> (\<exists>y. \<forall>z\<in>set ((rows @ [row]) ! ?n). z = y)" by simp
        then have "\<not> (\<exists>y. \<forall>z\<in>set row. z = y)" by simp
        with True row show False by auto
      qed
      with i row show "x = f" by simp
    next
      assume "x = f"
      with True row have "\<forall>y\<in>set ((rows @ [row]) ! ?n). y = x" by simp
      moreover have "\<forall>j. ?n < j \<and> j < Suc ?n \<longrightarrow>
          \<not> (\<exists>y. \<forall>z\<in>set ((rows @ [row]) ! j). z = y)"
        by (intro allI impI) arith
      ultimately show "?R (rows @ [row])"
        by (intro exI [of _ ?n] conjI) simp_all
    qed
    with L show ?thesis by (simp only:)
  next
    case False
    then have nu: "\<not> (\<exists>y. \<forall>z\<in>set row. z = y)" using row by auto
    have L: "scan_parents rs (rev (rows @ [row])) = Inr x \<longleftrightarrow>
        scan_parents rs (rev rows) = Inr x"
      unfolding step using False by auto
    have "?R (rows @ [row]) \<longleftrightarrow> ?R rows"
    proof
      assume "?R (rows @ [row])"
      then obtain i where i: "i < Suc ?n" "\<forall>y\<in>set ((rows @ [row]) ! i). y = x"
        and top: "\<forall>j. i < j \<and> j < Suc ?n \<longrightarrow> \<not> (\<exists>y. \<forall>z\<in>set ((rows @ [row]) ! j). z = y)"
        by auto
      have "i \<noteq> ?n"
      proof
        assume "i = ?n"
        with i have "\<forall>y\<in>set row. y = x" by simp
        with nu show False by blast
      qed
      with i have lt: "i < ?n" by simp
      with i have a: "\<forall>y\<in>set (rows ! i). y = x" by (simp add: nth_append)
      have "\<not> (\<exists>y. \<forall>z\<in>set (rows ! j). z = y)" if "i < j" "j < ?n" for j
        using top [rule_format, of j] that by (simp add: nth_append)
      with lt a show "?R rows" by blast
    next
      assume "?R rows"
      then obtain i where i: "i < ?n" "\<forall>y\<in>set (rows ! i). y = x"
        and top: "\<forall>j. i < j \<and> j < ?n \<longrightarrow> \<not> (\<exists>y. \<forall>z\<in>set (rows ! j). z = y)"
        by auto
      have "\<not> (\<exists>y. \<forall>z\<in>set ((rows @ [row]) ! j). z = y)" if "i < j" "j < Suc ?n" for j
      proof (cases "j = ?n")
        case True
        with nu show ?thesis by simp
      next
        case False
        with that have "j < ?n" by simp
        with top that show ?thesis by (simp add: nth_append)
      qed
      moreover have "\<forall>y\<in>set ((rows @ [row]) ! i). y = x" using i by (simp add: nth_append)
      ultimately show "?R (rows @ [row])" using i(1) by (intro exI [of _ i]) simp
    qed
    with L snoc.IH [OF ne] show ?thesis by (simp only:)
  qed
qed

lemma agree_at_zip_star:
  assumes "cs \<noteq> []"
  shows "agree_at cs i x \<longleftrightarrow> i < length (zip_star cs) \<and> (\<forall>y\<in>set (zip_star cs ! i). y = x)"
proof (cases "i < length (zip_star cs)")
  case True
  then have "\<forall>c\<in>set cs. i < length c" by (simp add: zip_star_length_iff)
  with True show ?thesis by (auto simp: agree_at_def list_all_iff zip_star_nth)
next
  case False
  with assms have "\<not> (\<forall>c\<in>set cs. i < length c)" by (simp add: zip_star_length_iff)
  with False show ?thesis by (auto simp: agree_at_def list_all_iff)
qed

lemma scan_zip_star_Inr:
  assumes "cs \<noteq> []"
  shows "scan_parents rs (rev (zip_star cs)) = Inr x \<longleftrightarrow> deepest_agreed cs x"
proof -
  have "scan_parents rs (rev (zip_star cs)) = Inr x \<longleftrightarrow>
     (\<exists>i<length (zip_star cs). (\<forall>y\<in>set (zip_star cs ! i). y = x) \<and>
        (\<forall>j. i < j \<and> j < length (zip_star cs) \<longrightarrow> \<not> (\<exists>y. \<forall>z\<in>set (zip_star cs ! j). z = y)))"
    by (rule scan_parents_rev_Inr) (rule zip_star_no_empty_row)
  also have "\<dots> \<longleftrightarrow> deepest_agreed cs x"
    unfolding deepest_agreed_def agree_at_zip_star [OF assms] by blast
  finally show ?thesis .
qed

lemma scan_parents_Inl_iff:
  "[] \<notin> set rows \<Longrightarrow>
   scan_parents rs rows = Inl e \<longleftrightarrow>
     e = NoCommonRoot rs \<and> (\<forall>row\<in>set rows. \<not> (\<exists>y. \<forall>z\<in>set row. z = y))"
proof (induction rs rows rule: scan_parents.induct)
  case (1 resolved_paths)
  then show ?case by auto
next
  case (2 resolved_paths rows)
  then show ?case by simp
next
  case (3 resolved_paths first_path other_paths rows)
  let ?row = "first_path # other_paths"
  have u: "(\<exists>y. \<forall>z\<in>set ?row. z = y) \<longleftrightarrow> (\<forall>z\<in>set other_paths. z = first_path)"
    by auto
  show ?case
  proof (cases "\<forall>z\<in>set other_paths. z = first_path")
    case True
    then have "scan_parents resolved_paths (?row # rows) = Inr first_path"
      by (simp add: list_all_iff)
    moreover from True u have "\<exists>y. \<forall>z\<in>set ?row. z = y" by simp
    ultimately show ?thesis by auto
  next
    case False
    then have n: "\<not> list_all (\<lambda>p. p = first_path) other_paths"
      by (simp add: list_all_iff)
    then have s: "scan_parents resolved_paths (?row # rows) = scan_parents resolved_paths rows"
      by simp
    from "3.prems" have "[] \<notin> set rows" by simp
    from "3.IH" [OF n this]
    have "scan_parents resolved_paths rows = Inl e \<longleftrightarrow>
        e = NoCommonRoot resolved_paths \<and> (\<forall>row\<in>set rows. \<not> (\<exists>y. \<forall>z\<in>set row. z = y))" .
    moreover from False u have "\<not> (\<exists>y. \<forall>z\<in>set ?row. z = y)" by simp
    ultimately show ?thesis unfolding s by auto
  qed
qed

lemma scan_zip_star_Inl:
  assumes "cs \<noteq> []"
  shows "scan_parents rs (rev (zip_star cs)) = Inl e \<longleftrightarrow>
     e = NoCommonRoot rs \<and> \<not> (\<exists>i x. agree_at cs i x)"
proof -
  have "[] \<notin> set (rev (zip_star cs))" by (simp add: zip_star_no_empty_row)
  then have "scan_parents rs (rev (zip_star cs)) = Inl e \<longleftrightarrow>
     e = NoCommonRoot rs \<and> (\<forall>row\<in>set (rev (zip_star cs)). \<not> (\<exists>y. \<forall>z\<in>set row. z = y))"
    by (rule scan_parents_Inl_iff)
  also have "(\<forall>row\<in>set (rev (zip_star cs)). \<not> (\<exists>y. \<forall>z\<in>set row. z = y)) \<longleftrightarrow>
     \<not> (\<exists>i x. agree_at cs i x)"
  proof
    assume a: "\<forall>row\<in>set (rev (zip_star cs)). \<not> (\<exists>y. \<forall>z\<in>set row. z = y)"
    show "\<not> (\<exists>i x. agree_at cs i x)"
    proof
      assume "\<exists>i x. agree_at cs i x"
      then obtain i x where i: "i < length (zip_star cs)" and x: "\<forall>y\<in>set (zip_star cs ! i). y = x"
        unfolding agree_at_zip_star [OF assms] by blast
      from i have "zip_star cs ! i \<in> set (rev (zip_star cs))" by simp
      with a x show False by blast
    qed
  next
    assume n: "\<not> (\<exists>i x. agree_at cs i x)"
    show "\<forall>row\<in>set (rev (zip_star cs)). \<not> (\<exists>y. \<forall>z\<in>set row. z = y)"
    proof
      fix row assume "row \<in> set (rev (zip_star cs))"
      then obtain i where i: "i < length (zip_star cs)" and r: "row = zip_star cs ! i"
        by (auto simp: in_set_conv_nth)
      show "\<not> (\<exists>y. \<forall>z\<in>set row. z = y)"
      proof
        assume "\<exists>y. \<forall>z\<in>set row. z = y"
        then obtain y where "\<forall>z\<in>set (zip_star cs ! i). z = y" using r by blast
        with i have "agree_at cs i y" unfolding agree_at_zip_star [OF assms] by simp
        with n show False by blast
      qed
    qed
  qed
  finally show ?thesis .
qed

lemma resolve_all_Inr_iff:
  "resolve_all fs ps = Inr rs \<longleftrightarrow> map (resolve fs) ps = map Some rs"
proof (induction ps arbitrary: rs)
  case Nil
  then show ?case by auto
next
  case (Cons p ps)
  show ?case
  proof (cases "resolve fs p")
    case None
    then show ?thesis by (cases rs) auto
  next
    case (Some r)
    show ?thesis
    proof (cases "resolve_all fs ps")
      case (Inl e)
      with Cons.IH have "\<And>rs'. map (resolve fs) ps \<noteq> map Some rs'" by simp
      with Some Inl show ?thesis by (cases rs) auto
    next
      case (Inr rs')
      with Cons.IH [of rs'] have "map (resolve fs) ps = map Some rs'" by simp
      with Some Inr show ?thesis by (cases rs) (auto simp: inj_map_eq_map)
    qed
  qed
qed

lemma resolve_all_ok:
  "\<forall>p\<in>set ps. resolve fs p \<noteq> None \<Longrightarrow>
     resolve_all fs ps = Inr (map (\<lambda>p. the (resolve fs p)) ps)"
  by (induction ps) auto

lemma resolve_all_Inr_all:
  assumes "resolve_all fs ps = Inr rs" and "p \<in> set ps"
  shows "resolve fs p \<noteq> None"
proof -
  from assms(2) have "resolve fs p \<in> set (map (resolve fs) ps)" by simp
  also from assms(1) have "map (resolve fs) ps = map Some rs"
    by (simp add: resolve_all_Inr_iff)
  finally show ?thesis by auto
qed

lemma agree_at_iff: "agree_at cs i x \<longleftrightarrow> (\<forall>c\<in>set cs. i < length c \<and> c ! i = x)"
  by (simp add: agree_at_def list_all_iff)

lemma agree_at_single: "agree_at [c] i x \<longleftrightarrow> i < length c \<and> c ! i = x"
  by (simp add: agree_at_def)

lemma deepest_agreed_set:
  "set cs = set cs' \<Longrightarrow> deepest_agreed cs x = deepest_agreed cs' x"
  by (simp add: deepest_agreed_def agree_at_iff)

lemma deepest_agreed_single:
  assumes "c \<noteq> []"
  shows "deepest_agreed [c] (last c)"
proof -
  from assms have "agree_at [c] (length c - 1) (last c)"
    by (simp add: agree_at_single last_conv_nth)
  moreover have "\<forall>j>length c - 1. \<not> (\<exists>y. agree_at [c] j y)"
    by (auto simp: agree_at_single)
  ultimately show ?thesis unfolding deepest_agreed_def by blast
qed

lemma canonical_ancestor:
  assumes "resolves_canonically fs" and "canonical fs r"
  shows "canonical fs (r\<lparr>names := take k (names r)\<rparr>)"
proof (induction "length (names r) - k" arbitrary: k)
  case 0
  then have "take k (names r) = names r" by simp
  with assms(2) show ?case by simp
next
  case (Suc n)
  then have le: "Suc k \<le> length (names r)" and n: "n = length (names r) - Suc k" by auto
  from n have "canonical fs (r\<lparr>names := take (Suc k) (names r)\<rparr>)" by (rule Suc.hyps(1))
  with assms(1) have "canonical fs (parent (r\<lparr>names := take (Suc k) (names r)\<rparr>))"
    by (simp add: resolves_canonically_def)
  moreover from le have "take (Suc k) (names r) \<noteq> []" by auto
  moreover from le have "butlast (take (Suc k) (names r)) = take k (names r)"
    by (simp add: butlast_take)
  ultimately show ?case by (simp add: parent_def)
qed


section \<open>Ancestor chains\<close>

lemma ancestry_Inl_iff:
  "get_path_ancestry fs p = Inl e \<longleftrightarrow> stat fs p = StatError \<and> e = OSError p"
  by (cases "stat fs p") (auto simp: get_path_ancestry_def Let_def is_dir_def)

lemma ancestry_Inr_iff:
  "get_path_ancestry fs p = Inr c \<longleftrightarrow>
     stat fs p \<noteq> StatError \<and>
     c = map (\<lambda>k. p\<lparr>names := take k (names p)\<rparr>)
           [0..<(if is_dir fs p = Inr True then Suc (length (names p)) else length (names p))]"
  by (cases "stat fs p") (auto simp: get_path_ancestry_def Let_def is_dir_def rev_parents)

lemma ancestry_returns:
  "stat fs p \<noteq> StatError \<Longrightarrow> \<exists>c. get_path_ancestry fs p = Inr c"
  by (simp add: ancestry_Inr_iff)

lemma ancestry_length:
  "get_path_ancestry fs p = Inr c \<Longrightarrow>
     length c = (if is_dir fs p = Inr True then Suc (length (names p)) else length (names p))"
  by (simp add: ancestry_Inr_iff)

lemma ancestry_nth:
  "get_path_ancestry fs p = Inr c \<Longrightarrow> i < length c \<Longrightarrow>
     c ! i = p\<lparr>names := take i (names p)\<rparr>"
  by (simp add: ancestry_Inr_iff split: if_splits)

lemma ancestry_nth_depth:
  "get_path_ancestry fs p = Inr c \<Longrightarrow> i < length c \<Longrightarrow> length (names (c ! i)) = i"
  by (simp add: ancestry_Inr_iff split: if_splits)

lemma root_of_self: "names p = [] \<Longrightarrow> root_of p = p"
  by (simp add: root_of_def)

lemma ancestry_nonempty:
  assumes "get_path_ancestry fs p = Inr c" and "is_dir fs (root_of p) = Inr True"
  shows "c \<noteq> []"
proof (cases "names p = []")
  case True
  with assms(2) have "is_dir fs p = Inr True" by (simp add: root_of_self)
  with assms(1) have "length c = Suc (length (names p))" by (simp add: ancestry_length)
  then show ?thesis by auto
next
  case False
  with assms(1) have "0 < length c" by (simp add: ancestry_length)
  then show ?thesis by simp
qed

lemma ancestry_hd:
  "get_path_ancestry fs p = Inr c \<Longrightarrow> c \<noteq> [] \<Longrightarrow> hd c = root_of p"
  by (simp add: hd_conv_nth ancestry_nth root_of_def)

lemma ancestry_last:
  assumes "get_path_ancestry fs p = Inr c" and "is_dir fs (root_of p) = Inr True"
  shows "last c = (if is_dir fs p = Inr True then p else parent p)"
proof (cases "is_dir fs p = Inr True")
  case True
  with assms(1) have "c = rev (parents p) @ [p]"
    by (simp add: get_path_ancestry_def Let_def)
  with True show ?thesis by simp
next
  case False
  have n: "names p \<noteq> []"
  proof
    assume "names p = []"
    then have "root_of p = p" by (rule root_of_self)
    with assms(2) False show False by simp
  qed
  from assms(1) False have "c = rev (parents p)"
    by (auto simp: get_path_ancestry_def Let_def split: sum.splits if_splits)
  moreover have "take (length (names p) - Suc 0) (names p) = butlast (names p)"
    by (simp add: butlast_conv_take)
  ultimately show ?thesis using False n
    by (simp add: parents_def parent_def last_rev hd_map hd_upt)
qed

lemma ancestry_step:
  assumes "get_path_ancestry fs p = Inr c" and "Suc i < length c"
  shows "c ! i = parent (c ! Suc i)"
proof -
  from assms have le: "Suc i \<le> length (names p)"
    by (simp add: ancestry_length split: if_splits)
  then have "butlast (take (Suc i) (names p)) = take i (names p)"
    by (simp add: butlast_take)
  moreover from le have "take (Suc i) (names p) \<noteq> []" by auto
  ultimately show ?thesis using assms
    by (simp add: ancestry_nth parent_def)
qed

lemma ancestry_distinct:
  assumes "get_path_ancestry fs p = Inr c"
  shows "distinct c"
proof -
  have "i = j" if "i < length c" "j < length c" "c ! i = c ! j" for i j
  proof -
    have "i = length (names (c ! i))"
      using ancestry_nth_depth [OF assms that(1)] by (rule sym)
    also have "\<dots> = length (names (c ! j))"
      unfolding that(3) ..
    also have "\<dots> = j"
      by (rule ancestry_nth_depth [OF assms that(2)])
    finally show ?thesis .
  qed
  then show ?thesis unfolding distinct_conv_nth by blast
qed

lemma ancestry_nth_of_deeper:
  assumes "get_path_ancestry fs r = Inr c" and "i < length c" and "j \<le> i"
  shows "c ! j = (c ! i)\<lparr>names := take j (names (c ! i))\<rparr>"
proof -
  from assms have "j < length c" by simp
  with assms show ?thesis by (simp add: ancestry_nth min_absorb1)
qed

lemma ancestry_all_Inr_iff:
  "ancestry_all fs rs = Inr cs \<longleftrightarrow> map (get_path_ancestry fs) rs = map Inr cs"
proof (induction rs arbitrary: cs)
  case Nil
  then show ?case by auto
next
  case (Cons r rs)
  show ?case
  proof (cases "get_path_ancestry fs r")
    case (Inl e)
    then show ?thesis by (cases cs) auto
  next
    case c: (Inr c)
    show ?thesis
    proof (cases "ancestry_all fs rs")
      case (Inl e)
      with Cons.IH have "\<And>cs'. map (get_path_ancestry fs) rs \<noteq> map Inr cs'" by simp
      with c Inl show ?thesis by (cases cs) auto
    next
      case (Inr cs')
      with Cons.IH [of cs'] have "map (get_path_ancestry fs) rs = map Inr cs'" by simp
      with c Inr show ?thesis by (cases cs) (auto simp: inj_map_eq_map)
    qed
  qed
qed

lemma ancestry_all_length: "ancestry_all fs rs = Inr cs \<Longrightarrow> length cs = length rs"
  by (auto simp: ancestry_all_Inr_iff dest: map_eq_imp_length_eq)

lemma ancestry_all_list_all2:
  "ancestry_all fs rs = Inr cs \<longleftrightarrow> list_all2 (\<lambda>r c. get_path_ancestry fs r = Inr c) rs cs"
  unfolding ancestry_all_Inr_iff list_all2_conv_all_nth
  by (auto simp: list_eq_iff_nth_eq)

lemma ancestry_all_mem:
  assumes "ancestry_all fs rs = Inr cs"
  shows "c \<in> set cs \<longleftrightarrow> (\<exists>r\<in>set rs. get_path_ancestry fs r = Inr c)"
proof -
  from assms have "Inr ` set cs = get_path_ancestry fs ` set rs"
    by (metis ancestry_all_Inr_iff list.set_map)
  then show ?thesis by (auto simp: image_iff set_eq_iff) (metis sum.inject(2))+
qed

lemma ancestry_all_ok:
  "\<forall>r\<in>set rs. stat fs r \<noteq> StatError \<Longrightarrow>
     ancestry_all fs rs = Inr (map (\<lambda>r. projr (get_path_ancestry fs r)) rs)"
proof (induction rs)
  case Nil
  then show ?case by simp
next
  case (Cons r rs)
  then obtain c where "get_path_ancestry fs r = Inr c"
    using ancestry_returns [of fs r] by auto
  with Cons show ?case by simp
qed

lemma ancestry_all_Inl:
  "ancestry_all fs rs = Inl e \<Longrightarrow> \<exists>r\<in>set rs. e = OSError r \<and> stat fs r = StatError"
proof (induction rs)
  case Nil
  then show ?case by simp
next
  case (Cons r rs)
  show ?case
  proof (cases "get_path_ancestry fs r")
    case (Inl e')
    with Cons.prems have "e' = e" by simp
    with Inl show ?thesis by (simp add: ancestry_Inl_iff)
  next
    case (Inr c)
    with Cons.prems have "ancestry_all fs rs = Inl e"
      by (simp split: sum.splits)
    with Cons.IH show ?thesis by auto
  qed
qed

lemma ancestry_all_Inr_all:
  assumes "ancestry_all fs rs = Inr cs" and "r \<in> set rs"
  shows "stat fs r \<noteq> StatError"
proof -
  from assms(2) have "get_path_ancestry fs r \<in> set (map (get_path_ancestry fs) rs)" by simp
  also from assms(1) have "map (get_path_ancestry fs) rs = map Inr cs"
    by (simp add: ancestry_all_Inr_iff)
  finally obtain c where "get_path_ancestry fs r = Inr c" by auto
  then show ?thesis by (simp add: ancestry_Inr_iff)
qed

section \<open>The result of \<open>get_common_root\<close>\<close>

lemma get_common_root_Inr_iff:
  assumes "resolve_all fs ps = Inr rs" and "ancestry_all fs rs = Inr cs" and "rs \<noteq> []"
  shows "get_common_root fs ps = Inr x \<longleftrightarrow> deepest_agreed cs x"
proof -
  from assms(2,3) have "cs \<noteq> []" by (auto dest: ancestry_all_length)
  with assms(1,2) show ?thesis by (simp add: get_common_root_def scan_zip_star_Inr)
qed

lemma get_common_root_Inl_iff:
  assumes "resolve_all fs ps = Inr rs" and "ancestry_all fs rs = Inr cs" and "rs \<noteq> []"
  shows "get_common_root fs ps = Inl e \<longleftrightarrow>
     e = NoCommonRoot rs \<and> \<not> (\<exists>i x. agree_at cs i x)"
proof -
  from assms(2,3) have "cs \<noteq> []" by (auto dest: ancestry_all_length)
  with assms(1,2) show ?thesis by (simp add: get_common_root_def scan_zip_star_Inl)
qed

lemma get_common_root_InrD:
  assumes "get_common_root fs ps = Inr R"
  obtains rs cs where "resolve_all fs ps = Inr rs" and "ancestry_all fs rs = Inr cs"
    and "rs \<noteq> []" and "deepest_agreed cs R"
proof (cases "resolve_all fs ps")
  case (Inl e)
  with assms show ?thesis by (simp add: get_common_root_def)
next
  case rs: (Inr rs)
  show ?thesis
  proof (cases "ancestry_all fs rs")
    case (Inl e)
    with rs assms show ?thesis by (simp add: get_common_root_def)
  next
    case cs: (Inr cs)
    have "rs \<noteq> []"
    proof
      assume "rs = []"
      with rs cs assms show False by (auto simp: get_common_root_def zip_star.simps)
    qed
    with rs cs assms that show ?thesis by (simp add: get_common_root_Inr_iff)
  qed
qed

lemma agree_at_shallower:
  assumes "ancestry_all fs rs = Inr cs" and "agree_at cs i x" and "j \<le> i"
  shows "agree_at cs j (x\<lparr>names := take j (names x)\<rparr>)"
  unfolding agree_at_iff
proof
  fix c assume "c \<in> set cs"
  with assms(1) obtain r where c: "get_path_ancestry fs r = Inr c"
    by (auto simp: ancestry_all_mem)
  from assms(2) \<open>c \<in> set cs\<close> have i: "i < length c" and x: "c ! i = x"
    by (auto simp: agree_at_iff)
  from i assms(3) have "j < length c" by simp
  moreover from ancestry_nth_of_deeper [OF c i assms(3)] x
  have "c ! j = x\<lparr>names := take j (names x)\<rparr>" by simp
  ultimately show "j < length c \<and> c ! j = x\<lparr>names := take j (names x)\<rparr>" by simp
qed

lemma get_common_root_single:
  assumes "resolve fs P = Some R" and "get_path_ancestry fs R = Inr c" and "c \<noteq> []"
  shows "get_common_root fs [P] = Inr (last c)"
proof -
  from assms(1) have r: "resolve_all fs [P] = Inr [R]" by simp
  from assms(2) have a: "ancestry_all fs [R] = Inr [c]" by simp
  from assms(3) have "deepest_agreed [c] (last c)" by (rule deepest_agreed_single)
  then show ?thesis using get_common_root_Inr_iff [OF r a] by simp
qed

lemma get_common_root_single_dir:
  assumes "resolve fs R = Some R" and "is_dir fs R = Inr True"
  shows "get_common_root fs [R] = Inr R"
proof -
  from assms(2) have c: "get_path_ancestry fs R = Inr (rev (parents R) @ [R])"
    by (simp add: get_path_ancestry_def Let_def)
  from get_common_root_single [OF assms(1) c] show ?thesis by simp
qed

lemma get_common_root_perm_Inr:
  assumes "mset ps = mset qs" and "get_common_root fs ps = Inr R"
  shows "get_common_root fs qs = Inr R"
proof -
  from assms(2) obtain rs cs where rs: "resolve_all fs ps = Inr rs" "rs \<noteq> []"
    and cs: "ancestry_all fs rs = Inr cs" and d: "deepest_agreed cs R"
    by (rule get_common_root_InrD)
  from assms(1) have s: "set ps = set qs" by (rule mset_eq_setD)
  let ?f = "\<lambda>p. the (resolve fs p)"
  let ?g = "\<lambda>r. projr (get_path_ancestry fs r)"
  have ok: "\<forall>p\<in>set ps. resolve fs p \<noteq> None"
    using resolve_all_Inr_all [OF rs(1)] by blast
  then have "resolve_all fs ps = Inr (map ?f ps)" by (rule resolve_all_ok)
  with rs have e: "rs = map ?f ps" by simp
  from ok s have q: "resolve_all fs qs = Inr (map ?f qs)" by (simp add: resolve_all_ok)
  from e rs(2) s have n: "map ?f qs \<noteq> []" by auto
  from e s have t: "set (map ?f qs) = set rs" by simp
  have ok2: "\<forall>r\<in>set rs. stat fs r \<noteq> StatError"
    using ancestry_all_Inr_all [OF cs] by blast
  then have "ancestry_all fs rs = Inr (map ?g rs)" by (rule ancestry_all_ok)
  with cs have e2: "cs = map ?g rs" by simp
  from ok2 t have a: "ancestry_all fs (map ?f qs) = Inr (map ?g (map ?f qs))"
    by (intro ancestry_all_ok) simp
  from t have "set (map ?g (map ?f qs)) = set (map ?g rs)"
    by (simp only: set_map)
  with e2 have "set (map ?g (map ?f qs)) = set cs" by simp
  from deepest_agreed_set [OF this] d
  have "deepest_agreed (map ?g (map ?f qs)) R"
    by (simp only:)
  then show ?thesis by (simp only: get_common_root_Inr_iff [OF q a n])
qed

lemma resolve_all_Inl:
  "resolve_all fs ps = Inl e \<Longrightarrow> \<exists>p\<in>set ps. e = ResolveError p \<and> resolve fs p = None"
proof (induction ps)
  case Nil
  then show ?case by simp
next
  case (Cons p ps)
  show ?case
  proof (cases "resolve fs p")
    case None
    with Cons.prems show ?thesis by simp
  next
    case (Some r)
    with Cons.prems have "resolve_all fs ps = Inl e"
      by (simp split: sum.splits)
    with Cons.IH show ?thesis by auto
  qed
qed

lemma single_root_agree:
  assumes "ancestry_all fs rs = Inr cs" and "single_root fs rs"
  shows "agree_at cs 0 (root_of (hd rs))"
  unfolding agree_at_iff
proof
  fix c assume "c \<in> set cs"
  with assms(1) obtain r where r: "r \<in> set rs" and c: "get_path_ancestry fs r = Inr c"
    by (auto simp: ancestry_all_mem)
  from assms(2) r have h: "root_of r = root_of (hd rs)" and d: "is_dir fs (root_of r) = Inr True"
    by (auto simp: single_root_def list_all_iff)
  from c d have n: "c \<noteq> []" by (rule ancestry_nonempty)
  with ancestry_hd [OF c n] h have "c ! 0 = root_of (hd rs)"
    by (simp add: hd_conv_nth)
  with n show "0 < length c \<and> c ! 0 = root_of (hd rs)" by simp
qed

text \<open>The definitions unfolded to run the functions on the sample filesystems.\<close>

lemmas eval_defs = get_common_root_def get_path_ancestry_def Let_def is_dir_def parents_def
  posix_path_def drive_path_def tree_fs_def roots_only_fs_def guarded_fs_def file_txt_def
  file2_txt_def upt_rec zip_star.simps

section \<open>The common root\<close>

text \<open>
  Claim C1.  For the inputs \<open>/a/b/c/file.txt\<close> and \<open>/a/b/d/file2.txt\<close>, both already
  canonical and both answered by \<open>stat\<close>, \<open>get_common_root\<close> returns \<open>/a/b\<close>, whatever
  the filesystem finds at the two inputs themselves; and \<open>/a/b\<close> is the deepest agreed
  element of the two chains: both chains hold it at the same position, and at no later
  position do they agree.
\<close>

theorem get_common_root_two_files:
  assumes "resolve fs file_txt = Some file_txt" and "resolve fs file2_txt = Some file2_txt"
    and "stat fs file_txt \<noteq> StatError" and "stat fs file2_txt \<noteq> StatError"
  shows "get_common_root fs [file_txt, file2_txt] = Inr (posix_path [''a'', ''b'']) \<and>
    (\<exists>c1 c2. get_path_ancestry fs file_txt = Inr c1 \<and>
       get_path_ancestry fs file2_txt = Inr c2 \<and>
       deepest_agreed [c1, c2] (posix_path [''a'', ''b'']))"
proof -
  from assms(1,2) have r: "resolve_all fs [file_txt, file2_txt] = Inr [file_txt, file2_txt]"
    by simp
  from assms(3) obtain c1 where c1: "get_path_ancestry fs file_txt = Inr c1"
    using ancestry_returns by blast
  from assms(4) obtain c2 where c2: "get_path_ancestry fs file2_txt = Inr c2"
    using ancestry_returns by blast
  from c1 c2 have a: "ancestry_all fs [file_txt, file2_txt] = Inr [c1, c2]" by simp
  let ?b1 = "map posix_path [[], [''a''], [''a'', ''b''], [''a'', ''b'', ''c'']]"
  let ?b2 = "map posix_path [[], [''a''], [''a'', ''b''], [''a'', ''b'', ''d'']]"
  have p1: "rev (parents file_txt) = ?b1"
    by (simp add: parents_def file_txt_def posix_path_def upt_rec)
  have p2: "rev (parents file2_txt) = ?b2"
    by (simp add: parents_def file2_txt_def posix_path_def upt_rec)
  have s: "scan_parents rs (rev (zip_star [k1, k2])) = Inr (posix_path [''a'', ''b''])"
    if "k1 = ?b1 \<or> k1 = ?b1 @ [file_txt]" and "k2 = ?b2 \<or> k2 = ?b2 @ [file2_txt]"
    for rs k1 k2
    using that
    by (elim disjE) (simp_all add: zip_star.simps posix_path_def file_txt_def file2_txt_def)
  from c1 have "c1 = ?b1 \<or> c1 = ?b1 @ [file_txt]"
    unfolding get_path_ancestry_def Let_def p1 by (auto split: sum.splits if_splits)
  moreover from c2 have "c2 = ?b2 \<or> c2 = ?b2 @ [file2_txt]"
    unfolding get_path_ancestry_def Let_def p2 by (auto split: sum.splits if_splits)
  ultimately have "scan_parents [file_txt, file2_txt] (rev (zip_star [c1, c2])) =
      Inr (posix_path [''a'', ''b''])"
    by (rule s)
  then have g: "get_common_root fs [file_txt, file2_txt] = Inr (posix_path [''a'', ''b''])"
    by (simp add: get_common_root_def r a del: resolve_all.simps ancestry_all.simps)
  with get_common_root_Inr_iff [OF r a, of "posix_path [''a'', ''b'']"]
  have "deepest_agreed [c1, c2] (posix_path [''a'', ''b''])" by blast
  with g c1 c2 show ?thesis by blast
qed

theorem get_common_root_two_files_witness:
  "resolve tree_fs file_txt = Some file_txt \<and> resolve tree_fs file2_txt = Some file2_txt \<and>
   stat tree_fs file_txt \<noteq> StatError \<and> stat tree_fs file2_txt \<noteq> StatError \<and>
   get_common_root tree_fs [file_txt, file2_txt] = Inr (posix_path [''a'', ''b'']) \<and>
   (\<exists>c1 c2. get_path_ancestry tree_fs file_txt = Inr c1 \<and>
       get_path_ancestry tree_fs file2_txt = Inr c2 \<and>
       deepest_agreed [c1, c2] (posix_path [''a'', ''b'']))"
proof -
  have a: "resolve tree_fs file_txt = Some file_txt" by (simp add: tree_fs_def)
  have b: "resolve tree_fs file2_txt = Some file2_txt" by (simp add: tree_fs_def)
  have c: "stat tree_fs file_txt \<noteq> StatError"
    by (simp add: tree_fs_def file_txt_def file2_txt_def posix_path_def)
  have d: "stat tree_fs file2_txt \<noteq> StatError"
    by (simp add: tree_fs_def file_txt_def file2_txt_def posix_path_def)
  from get_common_root_two_files [OF a b c d] a b c d show ?thesis by blast
qed

text \<open>
  Claim C2.  In a single-root filesystem the call can fail all the same: \<open>is_dir\<close> is
  called without a guard, and where \<open>stat\<close> of the resolved input \<open>/private/x\<close> is denied,
  the error leaves \<open>get_common_root\<close>, although the input resolves and the one root is
  a directory.
\<close>

theorem get_common_root_single_root_fails:
  "resolve_all guarded_fs [posix_path [''private'', ''x'']] =
     Inr [posix_path [''private'', ''x'']] \<and>
   single_root guarded_fs [posix_path [''private'', ''x'']] \<and>
   get_common_root guarded_fs [posix_path [''private'', ''x'']] =
     Inl (OSError (posix_path [''private'', ''x'']))"
  by (simp add: single_root_def root_of_def eval_defs)

text \<open>
  Claim C2, amended.  For a non-empty collection, \<open>get_common_root\<close> raises its
  \<open>ValueError\<close> exactly when every path resolves, every chain is computed and no
  position is shared by all chains (no position at which every chain has an element
  and all these elements are equal).  Any other failure is an error of \<open>resolve\<close> or of
  \<open>is_dir\<close> passed on.  When the resolved paths lie in a single-root filesystem, the
  \<open>ValueError\<close> is not raised: position 0 is shared, it holds the root in every chain;
  and when moreover \<open>stat\<close> answers for every resolved path, a path is returned.
\<close>

theorem get_common_root_fails_iff:
  assumes "ps \<noteq> []"
  shows "(\<forall>rs. get_common_root fs ps = Inl (NoCommonRoot rs) \<longleftrightarrow>
            (\<exists>cs. resolve_all fs ps = Inr rs \<and> ancestry_all fs rs = Inr cs \<and>
               \<not> (\<exists>i x. agree_at cs i x))) \<and>
    (\<forall>e. get_common_root fs ps = Inl e \<longrightarrow>
       (\<exists>p\<in>set ps. e = ResolveError p \<and> resolve fs p = None) \<or>
       (\<exists>rs. resolve_all fs ps = Inr rs \<and>
          (e = NoCommonRoot rs \<or> (\<exists>r\<in>set rs. e = OSError r \<and> stat fs r = StatError)))) \<and>
    (\<forall>rs. resolve_all fs ps = Inr rs \<and> single_root fs rs \<longrightarrow>
       (\<forall>rs'. get_common_root fs ps \<noteq> Inl (NoCommonRoot rs')) \<and>
       ((\<forall>r\<in>set rs. stat fs r \<noteq> StatError) \<longrightarrow>
          (\<exists>cs. ancestry_all fs rs = Inr cs \<and> agree_at cs 0 (root_of (hd rs))) \<and>
          (\<exists>R. get_common_root fs ps = Inr R)))"
proof (intro conjI allI impI)
  fix rs
  show "get_common_root fs ps = Inl (NoCommonRoot rs) \<longleftrightarrow>
      (\<exists>cs. resolve_all fs ps = Inr rs \<and> ancestry_all fs rs = Inr cs \<and>
         \<not> (\<exists>i x. agree_at cs i x))"
  proof (cases "resolve_all fs ps")
    case (Inl e)
    then have "get_common_root fs ps = Inl e" by (simp add: get_common_root_def)
    with Inl resolve_all_Inl [OF Inl] show ?thesis by auto
  next
    case r: (Inr rs')
    with assms have ne: "rs' \<noteq> []" by (auto simp: resolve_all_Inr_iff)
    show ?thesis
    proof (cases "ancestry_all fs rs'")
      case (Inl e)
      with r have "get_common_root fs ps = Inl e" by (simp add: get_common_root_def)
      with r Inl ancestry_all_Inl [OF Inl] show ?thesis by auto
    next
      case (Inr cs)
      from get_common_root_Inl_iff [OF r Inr ne, of "NoCommonRoot rs"] r Inr
      show ?thesis by auto
    qed
  qed
next
  fix e assume f: "get_common_root fs ps = Inl e"
  show "(\<exists>p\<in>set ps. e = ResolveError p \<and> resolve fs p = None) \<or>
       (\<exists>rs. resolve_all fs ps = Inr rs \<and>
          (e = NoCommonRoot rs \<or> (\<exists>r\<in>set rs. e = OSError r \<and> stat fs r = StatError)))"
  proof (cases "resolve_all fs ps")
    case (Inl e')
    with f have "e' = e" by (simp add: get_common_root_def)
    with resolve_all_Inl [OF Inl] show ?thesis by blast
  next
    case r: (Inr rs)
    with assms have ne: "rs \<noteq> []" by (auto simp: resolve_all_Inr_iff)
    show ?thesis
    proof (cases "ancestry_all fs rs")
      case (Inl e')
      with r f have "e' = e" by (simp add: get_common_root_def)
      with ancestry_all_Inl [OF Inl] r show ?thesis by blast
    next
      case (Inr cs)
      from get_common_root_Inl_iff [OF r Inr ne, of e] f r show ?thesis by blast
    qed
  qed
next
  fix rs rs' assume h: "resolve_all fs ps = Inr rs \<and> single_root fs rs"
  with assms have ne: "rs \<noteq> []" by (auto simp: resolve_all_Inr_iff)
  show "get_common_root fs ps \<noteq> Inl (NoCommonRoot rs')"
  proof (cases "ancestry_all fs rs")
    case (Inl e)
    with h have "get_common_root fs ps = Inl e" by (simp add: get_common_root_def)
    with ancestry_all_Inl [OF Inl] show ?thesis by auto
  next
    case (Inr cs)
    from single_root_agree [OF Inr] h have "agree_at cs 0 (root_of (hd rs))" by blast
    with get_common_root_Inl_iff [OF _ Inr ne, of ps "NoCommonRoot rs'"] h
    show ?thesis by blast
  qed
next
  fix rs assume h: "resolve_all fs ps = Inr rs \<and> single_root fs rs"
    and ok: "\<forall>r\<in>set rs. stat fs r \<noteq> StatError"
  from ok obtain cs where cs: "ancestry_all fs rs = Inr cs"
    using ancestry_all_ok by blast
  from single_root_agree [OF cs] h have "agree_at cs 0 (root_of (hd rs))" by blast
  with cs show "\<exists>cs. ancestry_all fs rs = Inr cs \<and> agree_at cs 0 (root_of (hd rs))"
    by blast
next
  fix rs assume h: "resolve_all fs ps = Inr rs \<and> single_root fs rs"
    and ok: "\<forall>r\<in>set rs. stat fs r \<noteq> StatError"
  with assms have ne: "rs \<noteq> []" by (auto simp: resolve_all_Inr_iff)
  from ok obtain cs where cs: "ancestry_all fs rs = Inr cs"
    using ancestry_all_ok by blast
  from single_root_agree [OF cs] h have a: "agree_at cs 0 (root_of (hd rs))" by blast
  show "\<exists>R. get_common_root fs ps = Inr R"
  proof (cases "get_common_root fs ps")
    case (Inl e)
    with get_common_root_Inl_iff [OF _ cs ne, of ps e] h a show ?thesis by blast
  next
    case (Inr R)
    then show ?thesis by blast
  qed
qed

theorem get_common_root_fails_iff_witness:
  "[file_txt, file2_txt] \<noteq> [] \<and>
   resolve_all tree_fs [file_txt, file2_txt] = Inr [file_txt, file2_txt] \<and>
   single_root tree_fs [file_txt, file2_txt] \<and>
   stat tree_fs file_txt \<noteq> StatError \<and> stat tree_fs file2_txt \<noteq> StatError \<and>
   (\<exists>R. get_common_root tree_fs [file_txt, file2_txt] = Inr R) \<and>
   get_common_root roots_only_fs [drive_path ''C:'' [''x'', ''y''], drive_path ''D:'' [''x'', ''y'']] =
     Inl (NoCommonRoot [drive_path ''C:'' [''x'', ''y''], drive_path ''D:'' [''x'', ''y'']]) \<and>
   (\<exists>cs. resolve_all roots_only_fs
            [drive_path ''C:'' [''x'', ''y''], drive_path ''D:'' [''x'', ''y'']] =
          Inr [drive_path ''C:'' [''x'', ''y''], drive_path ''D:'' [''x'', ''y'']] \<and>
      ancestry_all roots_only_fs
            [drive_path ''C:'' [''x'', ''y''], drive_path ''D:'' [''x'', ''y'']] = Inr cs \<and>
      \<not> (\<exists>i x. agree_at cs i x))"
proof -
  let ?ps = "[file_txt, file2_txt]"
  let ?qs = "[drive_path ''C:'' [''x'', ''y''], drive_path ''D:'' [''x'', ''y'']]"
  have a: "?ps \<noteq> []" and a': "?qs \<noteq> []" by simp_all
  have b: "resolve_all tree_fs ?ps = Inr ?ps" by (simp add: tree_fs_def)
  have c: "single_root tree_fs ?ps"
    by (simp add: single_root_def root_of_def eval_defs)
  have d: "\<forall>r\<in>set ?ps. stat tree_fs r \<noteq> StatError"
    by (simp add: tree_fs_def file_txt_def file2_txt_def posix_path_def)
  have e: "get_common_root roots_only_fs ?qs = Inl (NoCommonRoot ?qs)"
    by (simp add: eval_defs)
  from get_common_root_fails_iff [OF a, of tree_fs] b c d
  have "\<exists>R. get_common_root tree_fs ?ps = Inr R" by blast
  moreover from get_common_root_fails_iff [OF a', of roots_only_fs] e
  have "\<exists>cs. resolve_all roots_only_fs ?qs = Inr ?qs \<and>
      ancestry_all roots_only_fs ?qs = Inr cs \<and> \<not> (\<exists>i x. agree_at cs i x)"
    by blast
  moreover from d have "stat tree_fs file_txt \<noteq> StatError \<and> stat tree_fs file2_txt \<noteq> StatError"
    by simp
  ultimately show ?thesis using a b c e by blast
qed

text \<open>
  Claim C3.  For a single path with canonical form \<open>R\<close> (for a canonical path, the
  path itself) under a root that is a directory, \<open>get_common_root\<close> returns \<open>R\<close> when
  \<open>R\<close> is a directory and the parent of \<open>R\<close> when it is not; an error of the directory
  test is passed on.  Two identical inputs \<open>/a/b/c\<close> that are not a directory give
  \<open>/a/b\<close>.
\<close>

theorem get_common_root_single_path:
  assumes "resolve fs P = Some R" and "is_dir fs (root_of R) = Inr True"
  shows "get_common_root fs [P] =
      (case is_dir fs R of Inl e \<Rightarrow> Inl e | Inr d \<Rightarrow> Inr (if d then R else parent R)) \<and>
    (resolve fs (posix_path [''a'', ''b'', ''c'']) = Some (posix_path [''a'', ''b'', ''c'']) \<and>
     is_dir fs (posix_path [''a'', ''b'', ''c'']) = Inr False \<longrightarrow>
       get_common_root fs [posix_path [''a'', ''b'', ''c''], posix_path [''a'', ''b'', ''c'']] =
         Inr (posix_path [''a'', ''b'']))"
proof
  show "get_common_root fs [P] =
      (case is_dir fs R of Inl e \<Rightarrow> Inl e | Inr d \<Rightarrow> Inr (if d then R else parent R))"
  proof (cases "is_dir fs R")
    case (Inl e)
    with assms(1) show ?thesis
      by (simp add: get_common_root_def get_path_ancestry_def Let_def)
  next
    case (Inr d)
    then obtain c where c: "get_path_ancestry fs R = Inr c"
      by (simp add: get_path_ancestry_def Let_def)
    from c assms(2) have n: "c \<noteq> []" by (rule ancestry_nonempty)
    from get_common_root_single [OF assms(1) c n] ancestry_last [OF c assms(2)] Inr
    show ?thesis by auto
  qed
next
  show "resolve fs (posix_path [''a'', ''b'', ''c'']) = Some (posix_path [''a'', ''b'', ''c'']) \<and>
     is_dir fs (posix_path [''a'', ''b'', ''c'']) = Inr False \<longrightarrow>
       get_common_root fs [posix_path [''a'', ''b'', ''c''], posix_path [''a'', ''b'', ''c'']] =
         Inr (posix_path [''a'', ''b''])"
    by (simp add: get_common_root_def get_path_ancestry_def Let_def parents_def posix_path_def
        upt_rec zip_star.simps)
qed

theorem get_common_root_single_path_witness:
  "resolve tree_fs (posix_path [''a'', ''b'']) = Some (posix_path [''a'', ''b'']) \<and>
   is_dir tree_fs (root_of (posix_path [''a'', ''b''])) = Inr True \<and>
   is_dir tree_fs (posix_path [''a'', ''b'']) = Inr True \<and>
   get_common_root tree_fs [posix_path [''a'', ''b'']] = Inr (posix_path [''a'', ''b'']) \<and>
   resolve roots_only_fs (posix_path [''a'', ''b'', ''c'']) = Some (posix_path [''a'', ''b'', ''c'']) \<and>
   is_dir roots_only_fs (root_of (posix_path [''a'', ''b'', ''c''])) = Inr True \<and>
   is_dir roots_only_fs (posix_path [''a'', ''b'', ''c'']) = Inr False \<and>
   get_common_root roots_only_fs [posix_path [''a'', ''b'', ''c'']] = Inr (posix_path [''a'', ''b'']) \<and>
   get_common_root roots_only_fs [posix_path [''a'', ''b'', ''c''], posix_path [''a'', ''b'', ''c'']] =
     Inr (posix_path [''a'', ''b''])"
proof -
  have a: "resolve tree_fs (posix_path [''a'', ''b'']) = Some (posix_path [''a'', ''b''])"
    by (simp add: tree_fs_def)
  have b: "is_dir tree_fs (root_of (posix_path [''a'', ''b''])) = Inr True"
    by (simp add: root_of_def eval_defs)
  have c: "is_dir tree_fs (posix_path [''a'', ''b'']) = Inr True"
    by (simp add: eval_defs)
  have d: "resolve roots_only_fs (posix_path [''a'', ''b'', ''c'']) = Some (posix_path [''a'', ''b'', ''c''])"
    by (simp add: roots_only_fs_def)
  have e: "is_dir roots_only_fs (root_of (posix_path [''a'', ''b'', ''c''])) = Inr True"
    by (simp add: root_of_def eval_defs)
  have f: "is_dir roots_only_fs (posix_path [''a'', ''b'', ''c'']) = Inr False"
    by (simp add: eval_defs)
  have g: "parent (posix_path [''a'', ''b'', ''c'']) = posix_path [''a'', ''b'']"
    by (simp add: parent_def posix_path_def)
  from get_common_root_single_path [OF a b] get_common_root_single_path [OF d e] a b c d e f g
  show ?thesis by simp
qed

text \<open>
  Claim C4.  Two paths under the same root directory whose ancestor chains have no
  element in common except that root give exactly the root.
\<close>

theorem get_common_root_unrelated:
  assumes "resolve fs p = Some r1" and "resolve fs q = Some r2"
    and "root_of r1 = root_of r2" and "is_dir fs (root_of r1) = Inr True"
    and "get_path_ancestry fs r1 = Inr c1" and "get_path_ancestry fs r2 = Inr c2"
    and "set c1 \<inter> set c2 \<subseteq> {root_of r1}"
  shows "get_common_root fs [p, q] = Inr (root_of r1)"
proof -
  from assms(1,2) have r: "resolve_all fs [p, q] = Inr [r1, r2]" by simp
  from assms(5,6) have a: "ancestry_all fs [r1, r2] = Inr [c1, c2]" by simp
  from assms(5,4) have n1: "c1 \<noteq> []" by (rule ancestry_nonempty)
  from assms(3,4) have "is_dir fs (root_of r2) = Inr True" by simp
  with assms(6) have n2: "c2 \<noteq> []" by (rule ancestry_nonempty)
  from n1 ancestry_hd [OF assms(5) n1] have h1: "c1 ! 0 = root_of r1" by (simp add: hd_conv_nth)
  from n2 ancestry_hd [OF assms(6) n2] assms(3) have h2: "c2 ! 0 = root_of r1"
    by (simp add: hd_conv_nth)
  from n1 n2 h1 h2 have a0: "agree_at [c1, c2] 0 (root_of r1)"
    by (simp add: agree_at_def)
  have "\<not> agree_at [c1, c2] j y" if "0 < j" for j y
  proof
    assume "agree_at [c1, c2] j y"
    then have j: "j < length c1" "j < length c2" and y: "c1 ! j = y" "c2 ! j = y"
      by (simp_all add: agree_at_def)
    then have "y \<in> set c1 \<inter> set c2" by (metis IntI nth_mem)
    with assms(7) have "y = root_of r1" by blast
    then have "length (names y) = 0" by (simp add: root_of_def)
    moreover from ancestry_nth_depth [OF assms(5) j(1)] y(1) have "length (names y) = j" by simp
    ultimately show False using that by simp
  qed
  with a0 have "deepest_agreed [c1, c2] (root_of r1)"
    unfolding deepest_agreed_def by blast
  with get_common_root_Inr_iff [OF r a] show ?thesis by simp
qed

theorem get_common_root_unrelated_witness:
  "resolve tree_fs file_txt = Some file_txt \<and>
   resolve tree_fs (posix_path [''x'', ''y'']) = Some (posix_path [''x'', ''y'']) \<and>
   root_of file_txt = root_of (posix_path [''x'', ''y'']) \<and>
   is_dir tree_fs (root_of file_txt) = Inr True \<and>
   get_path_ancestry tree_fs file_txt =
     Inr (map posix_path [[], [''a''], [''a'', ''b''], [''a'', ''b'', ''c'']]) \<and>
   get_path_ancestry tree_fs (posix_path [''x'', ''y'']) = Inr (map posix_path [[], [''x'']]) \<and>
   set (map posix_path [[], [''a''], [''a'', ''b''], [''a'', ''b'', ''c'']]) \<inter>
     set (map posix_path [[], [''x'']]) \<subseteq> {root_of file_txt} \<and>
   get_common_root tree_fs [file_txt, posix_path [''x'', ''y'']] = Inr (posix_path [])"
proof -
  have a: "resolve tree_fs file_txt = Some file_txt"
    and b: "resolve tree_fs (posix_path [''x'', ''y'']) = Some (posix_path [''x'', ''y''])"
    by (simp_all add: tree_fs_def)
  have c: "root_of file_txt = root_of (posix_path [''x'', ''y''])"
    by (simp add: root_of_def file_txt_def posix_path_def)
  have d: "is_dir tree_fs (root_of file_txt) = Inr True"
    by (simp add: root_of_def eval_defs)
  have e1: "get_path_ancestry tree_fs file_txt =
      Inr (map posix_path [[], [''a''], [''a'', ''b''], [''a'', ''b'', ''c'']])"
    by (simp add: eval_defs)
  have e2: "get_path_ancestry tree_fs (posix_path [''x'', ''y'']) = Inr (map posix_path [[], [''x'']])"
    by (simp add: eval_defs)
  have e: "set (map posix_path [[], [''a''], [''a'', ''b''], [''a'', ''b'', ''c'']]) \<inter>
     set (map posix_path [[], [''x'']]) \<subseteq> {root_of file_txt}"
    by (simp add: root_of_def file_txt_def posix_path_def)
  have f: "root_of file_txt = posix_path []"
    by (simp add: root_of_def file_txt_def posix_path_def)
  from get_common_root_unrelated [OF a b c d e1 e2 e] a b c d e1 e2 e f show ?thesis
    by (simp only: simp_thms)
qed

text \<open>
  Claim C5.  \<open>get_common_root\<close> does not depend on the order of its input: on a
  permutation of the collection it returns the same path, and it fails on the one
  exactly when it fails on the other.
\<close>

theorem get_common_root_order_independent:
  assumes "mset ps = mset qs"
  shows "(\<forall>R. get_common_root fs ps = Inr R \<longleftrightarrow> get_common_root fs qs = Inr R) \<and>
    (isl (get_common_root fs ps) \<longleftrightarrow> isl (get_common_root fs qs))"
proof -
  have a: "get_common_root fs ps = Inr R \<longleftrightarrow> get_common_root fs qs = Inr R" for R
    using get_common_root_perm_Inr [OF assms] get_common_root_perm_Inr [OF assms [symmetric]]
    by blast
  have b: "isl x \<longleftrightarrow> (\<forall>R. x \<noteq> Inr R)" for x :: "error + path"
    by (cases x) auto
  from a show ?thesis unfolding b by blast
qed

theorem get_common_root_order_independent_witness:
  "mset [file_txt, posix_path [''a''], file2_txt] = mset [posix_path [''a''], file2_txt, file_txt] \<and>
   get_common_root tree_fs [file_txt, posix_path [''a''], file2_txt] = Inr (posix_path [''a'']) \<and>
   get_common_root tree_fs [posix_path [''a''], file2_txt, file_txt] = Inr (posix_path [''a''])"
proof -
  have a: "mset [file_txt, posix_path [''a''], file2_txt] = mset [posix_path [''a''], file2_txt, file_txt]"
    by (simp add: add_mset_commute)
  have b: "get_common_root tree_fs [file_txt, posix_path [''a''], file2_txt] = Inr (posix_path [''a''])"
    by (simp add: eval_defs)
  from get_common_root_order_independent [OF a, of tree_fs] a b show ?thesis by blast
qed

text \<open>
  Claim C6.  Re-applying \<open>get_common_root\<close> to its own result does not always return
  that result: where only the root exists, the input \<open>/x/y/f\<close> gives \<open>/x/y\<close>, which is
  not a directory, and the input \<open>/x/y\<close> then gives \<open>/x\<close>.
\<close>

theorem get_common_root_not_idempotent:
  "get_common_root roots_only_fs [posix_path [''x'', ''y'', ''f'']] = Inr (posix_path [''x'', ''y'']) \<and>
   get_common_root roots_only_fs [posix_path [''x'', ''y'']] \<noteq> Inr (posix_path [''x'', ''y''])"
  by (simp add: eval_defs)

text \<open>
  Claim C6, amended.  Where \<open>resolve\<close> behaves canonically, a result \<open>R\<close> of
  \<open>get_common_root\<close> that is a directory is returned unchanged by \<open>get_common_root\<close>
  applied to the one-element collection \<open>[R]\<close>.
\<close>

theorem get_common_root_idempotent_on_directories:
  assumes "resolves_canonically fs" and "get_common_root fs ps = Inr R"
    and "is_dir fs R = Inr True"
  shows "get_common_root fs [R] = Inr R"
proof -
  from assms(2) obtain rs cs where rs: "resolve_all fs ps = Inr rs" "rs \<noteq> []"
    and cs: "ancestry_all fs rs = Inr cs" and d: "deepest_agreed cs R"
    by (rule get_common_root_InrD)
  from rs(2) obtain r rs' where r: "rs = r # rs'" by (cases rs) auto
  from rs(1) r have "Some r \<in> set (map (resolve fs) ps)"
    by (simp add: resolve_all_Inr_iff)
  then obtain p where "resolve fs p = Some r" by auto
  with assms(1) have cr: "canonical fs r" by (auto simp: resolves_canonically_def)
  from cs r obtain c where c: "get_path_ancestry fs r = Inr c" and m: "c \<in> set cs"
    by (auto split: sum.splits)
  from d obtain i where "agree_at cs i R"
    unfolding deepest_agreed_def by blast
  with m have "i < length c" and "c ! i = R"
    by (simp_all add: agree_at_iff)
  with c have "R = r\<lparr>names := take i (names r)\<rparr>" by (simp add: ancestry_nth)
  with canonical_ancestor [OF assms(1) cr, of i] have "resolve fs R = Some R"
    by (simp add: canonical_def)
  then show ?thesis using assms(3) by (rule get_common_root_single_dir)
qed

theorem get_common_root_idempotent_on_directories_witness:
  "resolves_canonically tree_fs \<and>
   get_common_root tree_fs [file_txt, file2_txt] = Inr (posix_path [''a'', ''b'']) \<and>
   is_dir tree_fs (posix_path [''a'', ''b'']) = Inr True \<and>
   get_common_root tree_fs [posix_path [''a'', ''b'']] = Inr (posix_path [''a'', ''b''])"
proof -
  have a: "resolves_canonically tree_fs"
    by (simp add: resolves_canonically_def canonical_def tree_fs_def)
  have b: "get_common_root tree_fs [file_txt, file2_txt] = Inr (posix_path [''a'', ''b''])"
    by (simp add: eval_defs)
  have c: "is_dir tree_fs (posix_path [''a'', ''b'']) = Inr True"
    by (simp add: eval_defs)
  from get_common_root_idempotent_on_directories [OF a b c] a b c show ?thesis by simp
qed

text \<open>
  Claim C7.  With chains of different lengths, the tuples that \<open>get_common_root\<close>
  compares are exactly the positions, counted from the root, at which every chain still
  has an element, and the tuple at position \<open>i\<close> holds element \<open>i\<close> of every chain.
  The result is the element at the last such position at which all chains agree.
  Agreement at a position implies agreement at every earlier position, so this is also
  the last position before the first mismatch.  Here \<open>cs\<close> are the chains of the
  resolved paths, in the order of the input.
\<close>

theorem get_common_root_root_aligned:
  assumes "resolve_all fs ps = Inr rs" and "rs \<noteq> []" and "ancestry_all fs rs = Inr cs"
  shows "list_all2 (\<lambda>r c. get_path_ancestry fs r = Inr c) rs cs \<and>
    (\<forall>i. i < length (zip_star cs) \<longleftrightarrow> (\<forall>c\<in>set cs. i < length c)) \<and>
    (\<forall>i<length (zip_star cs). zip_star cs ! i = map (\<lambda>c. c ! i) cs) \<and>
    (\<forall>x. get_common_root fs ps = Inr x \<longleftrightarrow>
        (\<exists>i. agree_at cs i x \<and> (\<forall>j>i. \<not> (\<exists>y. agree_at cs j y)))) \<and>
    (\<forall>i x. agree_at cs i x \<longrightarrow> (\<forall>j\<le>i. \<exists>y. agree_at cs j y))"
proof (intro conjI allI impI)
  show "list_all2 (\<lambda>r c. get_path_ancestry fs r = Inr c) rs cs"
    using assms(3) by (simp add: ancestry_all_list_all2)
next
  fix i
  from assms(2,3) have "cs \<noteq> []" by (auto dest: ancestry_all_length)
  then show "i < length (zip_star cs) \<longleftrightarrow> (\<forall>c\<in>set cs. i < length c)"
    by (simp add: zip_star_length_iff)
next
  fix i assume "i < length (zip_star cs)"
  then show "zip_star cs ! i = map (\<lambda>c. c ! i) cs"
    by (simp add: zip_star_nth)
next
  fix x
  show "get_common_root fs ps = Inr x \<longleftrightarrow>
      (\<exists>i. agree_at cs i x \<and> (\<forall>j>i. \<not> (\<exists>y. agree_at cs j y)))"
    using get_common_root_Inr_iff [OF assms(1,3,2)] by (simp only: deepest_agreed_def)
next
  fix i x j
  assume "agree_at cs i x" and "j \<le> i"
  with assms(3) show "\<exists>y. agree_at cs j y"
    by (blast dest: agree_at_shallower)
qed

theorem get_common_root_root_aligned_witness:
  "resolve_all tree_fs [file_txt, posix_path [''a'', ''b'']] = Inr [file_txt, posix_path [''a'', ''b'']] \<and>
   ancestry_all tree_fs [file_txt, posix_path [''a'', ''b'']] =
     Inr [map posix_path [[], [''a''], [''a'', ''b''], [''a'', ''b'', ''c'']],
          map posix_path [[], [''a''], [''a'', ''b'']]] \<and>
   length (zip_star [map posix_path [[], [''a''], [''a'', ''b''], [''a'', ''b'', ''c'']],
          map posix_path [[], [''a''], [''a'', ''b'']]]) = 3 \<and>
   get_common_root tree_fs [file_txt, posix_path [''a'', ''b'']] = Inr (posix_path [''a'', ''b'']) \<and>
   (\<exists>i. agree_at [map posix_path [[], [''a''], [''a'', ''b''], [''a'', ''b'', ''c'']],
          map posix_path [[], [''a''], [''a'', ''b'']]] i (posix_path [''a'', ''b'']) \<and>
        (\<forall>j>i. \<not> (\<exists>y. agree_at [map posix_path [[], [''a''], [''a'', ''b''], [''a'', ''b'', ''c'']],
          map posix_path [[], [''a''], [''a'', ''b'']]] j y)))"
proof -
  let ?ps = "[file_txt, posix_path [''a'', ''b'']]"
  let ?cs = "[map posix_path [[], [''a''], [''a'', ''b''], [''a'', ''b'', ''c'']],
          map posix_path [[], [''a''], [''a'', ''b'']]]"
  have a: "resolve_all tree_fs ?ps = Inr ?ps" by (simp add: tree_fs_def)
  have b: "?ps \<noteq> []" by simp
  have c: "ancestry_all tree_fs ?ps = Inr ?cs"
    by (simp add: eval_defs)
  have d: "length (zip_star ?cs) = 3"
    by (simp add: zip_star.simps)
  have e: "get_common_root tree_fs ?ps = Inr (posix_path [''a'', ''b''])"
    by (simp add: eval_defs)
  from get_common_root_root_aligned [OF a b c] e
  have "\<exists>i. agree_at ?cs i (posix_path [''a'', ''b'']) \<and>
        (\<forall>j>i. \<not> (\<exists>y. agree_at ?cs j y))"
    by blast
  with a c d e show ?thesis by blast
qed

section \<open>The ancestor chain of one path\<close>

text \<open>
  Claim C8.  Where the root of \<open>p\<close> is a directory (as the root of a filesystem is) and
  \<open>stat\<close> answers for \<open>p\<close>, \<open>get_path_ancestry fs p\<close> returns a chain that is not empty
  and starts at that root; the element at position \<open>i\<close> has exactly \<open>i\<close> names, so the
  chain runs from the shallowest element to the deepest; each element is the parent of
  the next one, so nothing is skipped; no element occurs twice; and the chain of the
  root itself is the root alone.  For an absolute path \<open>root_of p\<close> is the root of the
  filesystem.
\<close>

theorem get_path_ancestry_chain:
  assumes "is_dir fs (root_of p) = Inr True" and "stat fs p \<noteq> StatError"
  shows "\<exists>c. get_path_ancestry fs p = Inr c \<and>
    c \<noteq> [] \<and>
    hd c = root_of p \<and>
    (\<forall>i<length c. length (names (c ! i)) = i) \<and>
    (\<forall>i. Suc i < length c \<longrightarrow> c ! i = parent (c ! Suc i)) \<and>
    distinct c \<and>
    (p = root_of p \<longrightarrow> c = [p])"
proof -
  from assms(2) obtain c where c: "get_path_ancestry fs p = Inr c"
    using ancestry_returns by blast
  from c assms(1) have ne: "c \<noteq> []" by (rule ancestry_nonempty)
  have "p = root_of p \<longrightarrow> c = [p]"
  proof
    assume r: "p = root_of p"
    then have "names p = names (root_of p)" by (rule arg_cong)
    then have "names p = []" by (simp add: root_of_def)
    moreover from r assms(1) have "is_dir fs p = Inr True" by simp
    ultimately show "c = [p]" using c
      by (simp add: get_path_ancestry_def Let_def parents_def)
  qed
  with ne c show ?thesis
    by (simp add: ancestry_hd ancestry_nth_depth ancestry_step ancestry_distinct)
qed

theorem get_path_ancestry_chain_witness:
  "is_dir tree_fs (root_of file_txt) = Inr True \<and>
   stat tree_fs file_txt \<noteq> StatError \<and>
   get_path_ancestry tree_fs file_txt =
     Inr (map posix_path [[], [''a''], [''a'', ''b''], [''a'', ''b'', ''c'']]) \<and>
   hd (map posix_path [[], [''a''], [''a'', ''b''], [''a'', ''b'', ''c'']]) = root_of file_txt \<and>
   distinct (map posix_path [[], [''a''], [''a'', ''b''], [''a'', ''b'', ''c'']]) \<and>
   get_path_ancestry tree_fs (root_of file_txt) = Inr [root_of file_txt]"
proof -
  let ?L = "map posix_path [[], [''a''], [''a'', ''b''], [''a'', ''b'', ''c'']]"
  have h: "is_dir tree_fs (root_of file_txt) = Inr True"
    by (simp add: root_of_def eval_defs)
  have s: "stat tree_fs file_txt \<noteq> StatError"
    by (simp add: tree_fs_def file_txt_def file2_txt_def posix_path_def)
  have r: "root_of file_txt = root_of (root_of file_txt)"
    by (simp add: root_of_def)
  have h': "is_dir tree_fs (root_of (root_of file_txt)) = Inr True"
    by (simp add: root_of_def eval_defs)
  have s': "stat tree_fs (root_of file_txt) \<noteq> StatError"
    by (simp add: root_of_def tree_fs_def file_txt_def file2_txt_def posix_path_def)
  have c: "get_path_ancestry tree_fs file_txt = Inr ?L"
    by (simp add: eval_defs)
  from get_path_ancestry_chain [OF h s] c
  have "hd ?L = root_of file_txt \<and> distinct ?L"
    by (metis sum.inject(2))
  moreover from get_path_ancestry_chain [OF h' s'] r
  have "get_path_ancestry tree_fs (root_of file_txt) = Inr [root_of file_txt]"
    by metis
  ultimately show ?thesis using h s c by blast
qed

text \<open>
  Claim C9.  \<open>get_path_ancestry\<close> can fail: the call of \<open>is_dir\<close> is not guarded, and
  where \<open>stat\<close> of \<open>/private/x\<close> is denied, the error leaves \<open>get_path_ancestry\<close>.
\<close>

theorem get_path_ancestry_fails:
  "get_path_ancestry guarded_fs (posix_path [''private'', ''x'']) =
     Inl (OSError (posix_path [''private'', ''x'']))"
  by (simp add: eval_defs)

text \<open>
  Claim C9, amended.  \<open>get_path_ancestry\<close> fails exactly when \<open>stat\<close> of the path itself
  fails with an error other than those that mean that nothing is there, and then that
  error is what it raises; it never fails because the path does not exist.  Of the
  filesystem it uses only the answer of \<open>is_dir\<close> for the path itself: two filesystems
  that classify \<open>p\<close> alike give the same result.  A path that does not exist is not a
  directory, so its chain is the reversed parents, does not contain the path, and (when
  the path has a last name to drop) ends at its parent.
\<close>

theorem get_path_ancestry_missing:
  "(isl (get_path_ancestry fs p) \<longleftrightarrow> stat fs p = StatError) \<and>
   (stat fs p = StatError \<longrightarrow> get_path_ancestry fs p = Inl (OSError p)) \<and>
   (is_dir fs p = is_dir fs' p \<longrightarrow> get_path_ancestry fs p = get_path_ancestry fs' p) \<and>
   (stat fs p = NotFound \<longrightarrow>
      get_path_ancestry fs p = Inr (rev (parents p)) \<and>
      p \<notin> set (rev (parents p)) \<and>
      (names p \<noteq> [] \<longrightarrow> last (rev (parents p)) = parent p))"
proof -
  have a: "isl (get_path_ancestry fs p) \<longleftrightarrow> stat fs p = StatError"
    by (cases "stat fs p") (simp_all add: get_path_ancestry_def Let_def is_dir_def)
  have a': "get_path_ancestry fs p = Inl (OSError p)" if "stat fs p = StatError"
    using that by (simp add: ancestry_Inl_iff)
  have b: "p \<notin> set (rev (parents p))"
  proof
    assume "p \<in> set (rev (parents p))"
    then obtain k where k: "k < length (names p)" and e: "p = p\<lparr>names := take k (names p)\<rparr>"
      by (auto simp: rev_parents)
    have "take k (names p) = names (p\<lparr>names := take k (names p)\<rparr>)" by simp
    also have "\<dots> = names p" using e [symmetric] by (rule arg_cong)
    finally have "length (names p) \<le> k" by (simp only: take_all_iff)
    with k show False by simp
  qed
  have c: "last (rev (parents p)) = parent p" if "names p \<noteq> []"
    using that by (simp add: parents_def parent_def last_rev hd_map hd_upt butlast_conv_take)
  have d: "get_path_ancestry fs p = Inr (rev (parents p))" if "stat fs p = NotFound"
    using that by (simp add: get_path_ancestry_def Let_def is_dir_def)
  have e: "get_path_ancestry fs p = get_path_ancestry fs' p" if "is_dir fs p = is_dir fs' p"
    using that by (simp add: get_path_ancestry_def Let_def)
  from a a' b c d e show ?thesis by blast
qed

theorem get_path_ancestry_missing_witness:
  "stat tree_fs (posix_path [''a'', ''b'', ''new'', ''x.py'']) = NotFound \<and>
   \<not> isl (get_path_ancestry tree_fs (posix_path [''a'', ''b'', ''new'', ''x.py''])) \<and>
   is_dir tree_fs (posix_path [''a'', ''b'', ''new'', ''x.py'']) =
     is_dir roots_only_fs (posix_path [''a'', ''b'', ''new'', ''x.py'']) \<and>
   get_path_ancestry tree_fs (posix_path [''a'', ''b'', ''new'', ''x.py'']) =
     get_path_ancestry roots_only_fs (posix_path [''a'', ''b'', ''new'', ''x.py'']) \<and>
   get_path_ancestry tree_fs (posix_path [''a'', ''b'', ''new'', ''x.py'']) =
     Inr (rev (parents (posix_path [''a'', ''b'', ''new'', ''x.py'']))) \<and>
   names (posix_path [''a'', ''b'', ''new'', ''x.py'']) \<noteq> [] \<and>
   last (rev (parents (posix_path [''a'', ''b'', ''new'', ''x.py'']))) =
     posix_path [''a'', ''b'', ''new''] \<and>
   stat guarded_fs (posix_path [''private'', ''x'']) = StatError \<and>
   isl (get_path_ancestry guarded_fs (posix_path [''private'', ''x'']))"
proof -
  let ?p = "posix_path [''a'', ''b'', ''new'', ''x.py'']"
  let ?q = "posix_path [''private'', ''x'']"
  have e: "stat tree_fs ?p = NotFound"
    by (simp add: tree_fs_def file_txt_def file2_txt_def posix_path_def)
  have d: "is_dir tree_fs ?p = is_dir roots_only_fs ?p"
    by (simp add: is_dir_def tree_fs_def roots_only_fs_def file_txt_def file2_txt_def
        posix_path_def)
  have n: "names ?p \<noteq> []"
    by (simp add: posix_path_def)
  have q: "parent ?p = posix_path [''a'', ''b'', ''new'']"
    by (simp add: parent_def posix_path_def)
  have g: "stat guarded_fs ?q = StatError"
    by (simp add: guarded_fs_def posix_path_def)
  have t: "stat tree_fs ?p \<noteq> StatError" using e by simp
  from get_path_ancestry_missing [of tree_fs ?p roots_only_fs]
    get_path_ancestry_missing [of guarded_fs ?q guarded_fs] e d n q g t
  show ?thesis by metis
qed

section \<open>The empty collection\<close>

text \<open>
  Claim C10.  Applied to the empty collection, \<open>get_common_root\<close> returns no path:
  \<open>zip\<close> of no chains yields no tuple, the loop body never runs, and the
  \<open>ValueError\<close> after the loop is raised, reporting the empty list of resolved paths.
\<close>

theorem get_common_root_empty:
  "get_common_root fs [] = Inl (NoCommonRoot [])"
  by (simp add: get_common_root_def zip_star.simps)


end
